theory Spec2Isabelle
  imports Complex_Main "HOL-Library.Multiset"
begin

section \<open>Python strings\<close>

text \<open>
  A Python \<open>str\<close> is modelled as a \<open>string\<close>: the character \<open>c\<close> stands for the code
  point \<open>of_char c\<close> (0 to 255). The character classes below are the Unicode classes
  Python uses, restricted to these code points.
\<close>

definition space_char :: char where
  "space_char = CHR 0x20"

definition newline_char :: char where
  "newline_char = CHR 0x0A"

definition backslash_char :: char where
  "backslash_char = CHR 0x5C"

text \<open>\<open>str.isspace\<close> on one character, also the class \<open>\s\<close> of \<open>re\<close>.\<close>

definition is_space :: "char \<Rightarrow> bool" where
  "is_space c =
     (let n = (of_char c :: nat)
      in (9 \<le> n \<and> n \<le> 13) \<or> (28 \<le> n \<and> n \<le> 32) \<or> n = 133 \<or> n = 160)"

text \<open>The ASCII class \<open>[a-zA-Z0-9]\<close>.\<close>

definition is_ascii_alnum :: "char \<Rightarrow> bool" where
  "is_ascii_alnum c =
     (let n = (of_char c :: nat)
      in (48 \<le> n \<and> n \<le> 57) \<or> (65 \<le> n \<and> n \<le> 90) \<or> (97 \<le> n \<and> n \<le> 122))"

text \<open>\<open>str.isalpha\<close> on one character (general categories L*).\<close>

definition is_alpha :: "char \<Rightarrow> bool" where
  "is_alpha c =
     (let n = (of_char c :: nat)
      in (65 \<le> n \<and> n \<le> 90) \<or> (97 \<le> n \<and> n \<le> 122) \<or> n = 170 \<or> n = 181 \<or> n = 186 \<or>
         (192 \<le> n \<and> n \<le> 214) \<or> (216 \<le> n \<and> n \<le> 246) \<or> 248 \<le> n)"

text \<open>\<open>str.isdecimal\<close> on one character, also the class \<open>\d\<close> of \<open>re\<close>.\<close>

definition is_decimal :: "char \<Rightarrow> bool" where
  "is_decimal c = (let n = (of_char c :: nat) in 48 \<le> n \<and> n \<le> 57)"

text \<open>\<open>str.isdigit\<close> on one character: the decimals and the superscripts 1, 2, 3.\<close>

definition is_digit :: "char \<Rightarrow> bool" where
  "is_digit c =
     (let n = (of_char c :: nat) in is_decimal c \<or> n = 178 \<or> n = 179 \<or> n = 185)"

text \<open>\<open>str.isnumeric\<close> on one character: the digits and the fractions 1/4, 1/2, 3/4.\<close>

definition is_numeric :: "char \<Rightarrow> bool" where
  "is_numeric c =
     (let n = (of_char c :: nat) in is_digit c \<or> n = 188 \<or> n = 189 \<or> n = 190)"

text \<open>\<open>str.isalnum\<close> on one character.\<close>

definition is_alnum :: "char \<Rightarrow> bool" where
  "is_alnum c = (is_alpha c \<or> is_decimal c \<or> is_digit c \<or> is_numeric c)"

text \<open>The class \<open>\w\<close> of \<open>re\<close> on a \<open>str\<close> pattern.\<close>

definition is_word_char :: "char \<Rightarrow> bool" where
  "is_word_char c = (is_alnum c \<or> c = CHR ''_'')"

definition py_isspace :: "string \<Rightarrow> bool" where
  "py_isspace s = (s \<noteq> [] \<and> list_all is_space s)"

definition py_isalnum :: "string \<Rightarrow> bool" where
  "py_isalnum s = (s \<noteq> [] \<and> list_all is_alnum s)"

definition py_isdigit :: "string \<Rightarrow> bool" where
  "py_isdigit s = (s \<noteq> [] \<and> list_all is_digit s)"

text \<open>\<open>s.strip()\<close>: leading and trailing whitespace removed.\<close>

definition py_strip :: "string \<Rightarrow> string" where
  "py_strip s = rev (dropWhile is_space (rev (dropWhile is_space s)))"

text \<open>
  \<open>s.split()\<close>: the maximal runs of non-whitespace characters, in order. \<open>cur\<close> is the run
  being read.
\<close>

fun split_run :: "string \<Rightarrow> string \<Rightarrow> string list" where
  "split_run cur [] = (if cur = [] then [] else [cur])"
| "split_run cur (c # s) =
     (if is_space c
      then (if cur = [] then split_run [] s else cur # split_run [] s)
      else split_run (cur @ [c]) s)"

definition py_split :: "string \<Rightarrow> string list" where
  "py_split s = split_run [] s"

text \<open>\<open>s.replace('\n', ' ')\<close>.\<close>

definition replace_newlines :: "string \<Rightarrow> string" where
  "replace_newlines s = map (\<lambda>c. if c = newline_char then space_char else c) s"

text \<open>\<open>' '.join(ws)\<close>, the text the claims about n-grams are stated with.\<close>

fun space_join :: "string list \<Rightarrow> string" where
  "space_join [] = []"
| "space_join [w] = w"
| "space_join (w # ws) = w @ [space_char] @ space_join ws"

section \<open>N-gram generator\<close>

text \<open>
  The inner loop of \<open>get_ngrams\<close>: \<open>temp_str = temp_str + ' ' + list_str[i+j]\<close> while
  \<open>j < ngrams_value\<close>. The outer loop only enters it with \<open>i + ngrams_value \<le> len(list_str)\<close>,
  so the index is in range. \<open>ngrams_value\<close> is a word count, a natural number.
\<close>

function ngram_window :: "string list \<Rightarrow> nat \<Rightarrow> nat \<Rightarrow> nat \<Rightarrow> string \<Rightarrow> string" where
  "ngram_window list_str ngrams_value i j temp_str =
     (if j < ngrams_value
      then ngram_window list_str ngrams_value i (j + 1)
             (temp_str @ [space_char] @ list_str ! (i + j))
      else temp_str)"
  by pat_completeness auto
termination
  by (relation "measure (\<lambda>(l, n, i, j, t). n - j)") auto

declare ngram_window.simps [simp del]

text \<open>The outer loop: \<open>while i <= len(list_str) - ngrams_value\<close>, on Python's integers.\<close>

function ngrams_loop :: "string list \<Rightarrow> nat \<Rightarrow> nat \<Rightarrow> string list \<Rightarrow> string list" where
  "ngrams_loop list_str ngrams_value i result =
     (if int i \<le> int (length list_str) - int ngrams_value
      then ngrams_loop list_str ngrams_value (i + 1)
             (result @ [py_strip (ngram_window list_str ngrams_value i 0 [])])
      else result)"
  by pat_completeness auto
termination
  by (relation "measure (\<lambda>(l, n, i, r). Suc (length l) - i)") auto

declare ngrams_loop.simps [simp del]

definition get_ngrams :: "string list \<Rightarrow> nat \<Rightarrow> string list" where
  "get_ngrams list_str ngrams_value = ngrams_loop list_str ngrams_value 0 []"

section \<open>Similarity scorer and match collector\<close>

text \<open>
  \<open>ratio\<close> is imported from the \<open>Levenshtein\<close> library, which is not part of the
  repository. It is modelled from the library's documentation: the normalized InDel
  similarity \<open>1 - distance / (len(s1) + len(s2))\<close>, where the distance counts insertions
  and deletions, that is \<open>len(s1) + len(s2) - 2 * lcs\<close>; two empty strings have
  similarity 1; a similarity below \<open>score_cutoff\<close> is returned as 0. Python's floats
  are idealised as real numbers; the properties below use only their order.
\<close>

fun lcs_length :: "string \<Rightarrow> string \<Rightarrow> nat" where
  "lcs_length [] s2 = 0"
| "lcs_length (x # s1) [] = 0"
| "lcs_length (x # s1) (y # s2) =
     (if x = y then Suc (lcs_length s1 s2)
      else max (lcs_length s1 (y # s2)) (lcs_length (x # s1) s2))"

definition indel_similarity :: "string \<Rightarrow> string \<Rightarrow> real" where
  "indel_similarity s1 s2 =
     (if length s1 + length s2 = 0 then 1
      else real (2 * lcs_length s1 s2) / real (length s1 + length s2))"

definition ratio :: "string \<Rightarrow> string \<Rightarrow> real \<Rightarrow> real" where
  "ratio s1 s2 score_cutoff =
     (let r = indel_similarity s1 s2 in if r < score_cutoff then 0 else r)"

text \<open>A row of the data frame with the columns \<open>matched_word\<close>, \<open>restricted_word\<close>, \<open>similarity\<close>.\<close>

record match_row =
  matched_word :: string
  restricted_word :: string
  similarity :: real

text \<open>\<open>restricted_type\<close>: \<open>'ticker'\<close>, or anything else (the callers pass \<open>'issuer'\<close>).\<close>

datatype restricted_type = Issuer | Ticker

text \<open>\<open>strip_pattern = [^\w\d\s\.]\<close>, matched against one character.\<close>

definition strip_pattern :: "char \<Rightarrow> bool" where
  "strip_pattern c = (\<not> (is_word_char c \<or> is_decimal c \<or> is_space c \<or> c = CHR ''.''))"

text \<open>\<open>re.sub(pattern, '', input)\<close> with \<open>pattern = [^a-zA-Z0-9]\<close>.\<close>

definition remove_non_alnum :: "string \<Rightarrow> string" where
  "remove_non_alnum s = filter is_ascii_alnum s"

text \<open>
  \<open>if re.match(strip_pattern, input[-1]): input = input[:-1]\<close>; the loop has skipped
  the empty string before.
\<close>

definition strip_last :: "string \<Rightarrow> string" where
  "strip_last inp = (if strip_pattern (last inp) then butlast inp else inp)"

text \<open>The value \<open>r\<close> that \<open>get_matches\<close> compares with the threshold.\<close>

definition score :: "restricted_type \<Rightarrow> string \<Rightarrow> string \<Rightarrow> real \<Rightarrow> real" where
  "score restricted_type inp res similarity_ratio =
     (if restricted_type = Ticker then ratio (remove_non_alnum inp) res similarity_ratio
      else ratio inp res similarity_ratio)"

text \<open>The loop \<open>for res in restricted_list\<close>, appending to \<open>matches\<close>.\<close>

fun matches_for_input ::
  "string \<Rightarrow> string list \<Rightarrow> real \<Rightarrow> restricted_type \<Rightarrow> match_row list \<Rightarrow> match_row list" where
  "matches_for_input inp [] similarity_ratio restricted_type matches = matches"
| "matches_for_input inp (res # restricted_list) similarity_ratio restricted_type matches =
     (let r = score restricted_type inp res similarity_ratio
      in matches_for_input inp restricted_list similarity_ratio restricted_type
           (if r > similarity_ratio
            then matches @ [\<lparr>matched_word = py_strip inp, restricted_word = res, similarity = r\<rparr>]
            else matches))"

text \<open>The loop \<open>for input in content_list\<close>.\<close>

fun matches_loop ::
  "string list \<Rightarrow> string list \<Rightarrow> real \<Rightarrow> restricted_type \<Rightarrow> match_row list \<Rightarrow> match_row list" where
  "matches_loop [] restricted_list similarity_ratio restricted_type matches = matches"
| "matches_loop (inp # content_list) restricted_list similarity_ratio restricted_type matches =
     (if length inp = 0 \<or> py_isspace inp
      then matches_loop content_list restricted_list similarity_ratio restricted_type matches
      else matches_loop content_list restricted_list similarity_ratio restricted_type
             (matches_for_input (strip_last inp) restricted_list similarity_ratio
                restricted_type matches))"

definition get_matches ::
  "string list \<Rightarrow> string list \<Rightarrow> real \<Rightarrow> restricted_type \<Rightarrow> match_row list" where
  "get_matches content_list restricted_list similarity_ratio restricted_type =
     matches_loop content_list restricted_list similarity_ratio restricted_type []"

section \<open>Rank and dedup, the matching pass\<close>

datatype py_error = IndexError

text \<open>\<open>len(x.split())\<close>, the sort key and the group of a restricted word.\<close>

definition word_len :: "string \<Rightarrow> nat" where
  "word_len x = length (py_split x)"

text \<open>
  \<open>restricted_words.sort(key=lambda x: len(x.split()), reverse=True)\<close>: Python's sort is
  stable, also with \<open>reverse=True\<close>. It sorts the caller's list in place; the model
  returns the sorted list as the list's new content.
\<close>

definition sort_restricted :: "string list \<Rightarrow> string list" where
  "sort_restricted restricted_words = sort_key (\<lambda>x. - int (word_len x)) restricted_words"

text \<open>
  \<open>sort_values(by=['similarity'], ascending=False)\<close>. The order pandas gives to rows of
  equal similarity is not specified; the model keeps them in insertion order.
\<close>

definition sort_values :: "match_row list \<Rightarrow> match_row list" where
  "sort_values df = sort_key (\<lambda>m. - similarity m) df"

text \<open>
  \<open>drop_duplicates(subset=[column], keep='first')\<close>: a row is dropped when an earlier
  row has the same value in the column. \<open>seen\<close> holds the values of the earlier rows.
\<close>

fun drop_seen :: "('a \<Rightarrow> 'k) \<Rightarrow> 'k list \<Rightarrow> 'a list \<Rightarrow> 'a list" where
  "drop_seen column seen [] = []"
| "drop_seen column seen (row # df) =
     (if column row \<in> set seen then drop_seen column seen df
      else row # drop_seen column (column row # seen) df)"

definition drop_duplicates :: "('a \<Rightarrow> 'k) \<Rightarrow> 'a list \<Rightarrow> 'a list" where
  "drop_duplicates column df = drop_seen column [] df"

text \<open>Lines 193 to 197 of \<open>fuzzy_search\<close>: sort, then the two passes.\<close>

definition rank_dedup :: "match_row list \<Rightarrow> match_row list" where
  "rank_dedup matches_df =
     drop_duplicates restricted_word (drop_duplicates matched_word (sort_values matches_df))"

text \<open>The loop \<open>while max_word_len > 0\<close>, concatenating the matches of each word count.\<close>

function collect_matches ::
  "string list \<Rightarrow> string list \<Rightarrow> real \<Rightarrow> restricted_type \<Rightarrow> nat \<Rightarrow> match_row list \<Rightarrow> match_row list" where
  "collect_matches content_list restricted_words similarity_ratio restricted_type max_word_len matches_df =
     (if max_word_len > 0
      then (let temp = filter (\<lambda>elem. word_len elem = max_word_len) restricted_words
            in collect_matches content_list restricted_words similarity_ratio restricted_type
                 (max_word_len - 1)
                 (if length temp > 0
                  then matches_df @ get_matches (get_ngrams content_list max_word_len) temp
                         similarity_ratio restricted_type
                  else matches_df))
      else matches_df)"
  by pat_completeness auto
termination
  by (relation "measure (\<lambda>(c, w, s, t, n, m). n)") auto

declare collect_matches.simps [simp del]

text \<open>
  \<open>fuzzy_search\<close> returns the caller's list as the in-place sort left it, and either the
  data frame or the error raised: \<open>restricted_words[0]\<close> raises \<open>IndexError\<close> on the
  empty list.
\<close>

definition fuzzy_search ::
  "string \<Rightarrow> string list \<Rightarrow> real \<Rightarrow> restricted_type \<Rightarrow> string list \<times> (py_error + match_row list)" where
  "fuzzy_search input_string restricted_words similarity_ratio restricted_type =
     (let content_list = py_split (replace_newlines input_string);
          restricted_words = sort_restricted restricted_words
      in (restricted_words,
          case restricted_words of
            [] \<Rightarrow> Inl IndexError
          | first # _ \<Rightarrow>
              Inr (rank_dedup (collect_matches content_list restricted_words similarity_ratio
                     restricted_type (word_len first) []))))"

text \<open>The row appended for a candidate and a restricted word.\<close>

definition row_of :: "restricted_type \<Rightarrow> real \<Rightarrow> string \<Rightarrow> string \<Rightarrow> match_row" where
  "row_of ty thr inp res =
     \<lparr>matched_word = py_strip inp, restricted_word = res, similarity = score ty inp res thr\<rparr>"

section \<open>Highlighter\<close>

text \<open>
  \<open>word_sub_re = re.escape(word).replace('\\ ', '[\\n| ]*')\<close>: \<open>re.escape\<close> makes every
  character of the word match itself and writes a space as backslash-space, which the
  \<open>replace\<close> turns into the class \<open>[\n| ]\<close> (line feed, vertical bar, space) repeated zero
  or more times. The pattern is a list of items: a literal character, or that repeated
  class.
\<close>

datatype re_item = Lit char | Gap

definition word_sub_re :: "string \<Rightarrow> re_item list" where
  "word_sub_re w = map (\<lambda>c. if c = space_char then Gap else Lit c) w"

definition gap_char :: "char \<Rightarrow> bool" where
  "gap_char c = (c = newline_char \<or> c = CHR ''|'' \<or> c = space_char)"

text \<open>
  The matches of the pattern at the start of a text, as (matched text, rest), in the
  order in which the backtracking matcher of \<open>re\<close> tries them: the repeated class is
  greedy, it takes as many characters as it can and gives them back one at a time.
\<close>

fun all_matches :: "re_item list \<Rightarrow> string \<Rightarrow> (string \<times> string) list" where
  "all_matches [] s = [([], s)]"
| "all_matches (Lit c # pat) [] = []"
| "all_matches (Lit c # pat) (x # s) =
     (if x = c then map (\<lambda>(m, rest). (x # m, rest)) (all_matches pat s) else [])"
| "all_matches (Gap # pat) [] = all_matches pat []"
| "all_matches (Gap # pat) (x # s) =
     (if gap_char x then map (\<lambda>(m, rest). (x # m, rest)) (all_matches (Gap # pat) s) else [])
     @ all_matches pat (x # s)"

text \<open>
  The match \<open>re\<close> reports at a position: the first one; after an empty match
  (\<open>must_advance\<close>) an empty match at the same position is refused and the matcher
  backtracks.
\<close>

definition first_match :: "re_item list \<Rightarrow> bool \<Rightarrow> string \<Rightarrow> (string \<times> string) option" where
  "first_match pat must_advance s =
     find (\<lambda>(m, rest). \<not> (must_advance \<and> m = [])) (all_matches pat s)"

text \<open>
  The search for the leftmost match: (text before the match, matched text, rest).
  \<open>must_advance\<close> holds for the first position only.
\<close>

fun search :: "re_item list \<Rightarrow> bool \<Rightarrow> string \<Rightarrow> (string \<times> string \<times> string) option" where
  "search pat must_advance [] =
     (case first_match pat must_advance [] of
        None \<Rightarrow> None
      | Some (m, rest) \<Rightarrow> Some ([], m, rest))"
| "search pat must_advance (c # s) =
     (case first_match pat must_advance (c # s) of
        Some (m, rest) \<Rightarrow> Some ([], m, rest)
      | None \<Rightarrow>
          (case search pat False s of
             None \<Rightarrow> None
           | Some (pre, m, rest) \<Rightarrow> Some (c # pre, m, rest)))"

lemma all_matches_split: "(m, rest) \<in> set (all_matches pat s) \<Longrightarrow> s = m @ rest"
  by (induction pat s arbitrary: m rule: all_matches.induct) (auto split: if_splits)

lemma first_match_Some:
  "first_match pat must_advance s = Some (m, rest) \<Longrightarrow>
   s = m @ rest \<and> (must_advance \<longrightarrow> m \<noteq> [])"
proof -
  assume "first_match pat must_advance s = Some (m, rest)"
  then obtain i where i: "i < length (all_matches pat s)" "all_matches pat s ! i = (m, rest)"
    and adv: "\<not> (must_advance \<and> m = [])"
    by (auto simp: first_match_def find_Some_iff)
  from i have "(m, rest) \<in> set (all_matches pat s)" by (metis nth_mem)
  then have "s = m @ rest" by (rule all_matches_split)
  with adv show ?thesis by simp
qed

lemma search_Some:
  "search pat must_advance s = Some (pre, m, rest) \<Longrightarrow>
   s = pre @ m @ rest \<and> (must_advance \<longrightarrow> pre \<noteq> [] \<or> m \<noteq> [])"
proof (induction s arbitrary: must_advance pre)
  case Nil
  then show ?case
    by (auto split: option.splits dest: first_match_Some)
next
  case (Cons c s)
  show ?case
  proof (cases "first_match pat must_advance (c # s)")
    case None
    with Cons.prems obtain pre' where "search pat False s = Some (pre', m, rest)" "pre = c # pre'"
      by (auto split: option.splits)
    with Cons.IH [of False pre'] show ?thesis by simp
  next
    case (Some a)
    with Cons.prems show ?thesis
      by (cases a) (auto dest: first_match_Some)
  qed
qed

text \<open>
  The loop of \<open>re.subn\<close> with \<open>count = 0\<close>: every match is replaced, the search goes on
  behind the match, and the text behind the last match is kept. It returns the new text
  and the number of substitutions.
\<close>

function subn_loop :: "re_item list \<Rightarrow> string \<Rightarrow> bool \<Rightarrow> string \<Rightarrow> string \<times> nat" where
  "subn_loop pat repl must_advance s =
     (case search pat must_advance s of
        None \<Rightarrow> (s, 0)
      | Some (pre, m, rest) \<Rightarrow>
          (case subn_loop pat repl (m = []) rest of
             (out, n) \<Rightarrow> (pre @ repl @ out, Suc n)))"
  by pat_completeness auto
termination
proof (relation "measure (\<lambda>(pat, repl, must_advance, s). 2 * length s + (if must_advance then 0 else 1))")
  show "wf (measure (\<lambda>(pat, repl, must_advance, s). 2 * length s + (if must_advance then 0 else 1)))"
    by simp
next
  fix pat :: "re_item list" and repl :: string and must_advance s x2 pre y m rest
  assume "search pat must_advance s = Some x2" "(pre, y) = x2" "(m, rest) = y"
  then have "search pat must_advance s = Some (pre, m, rest)" by simp
  from search_Some [OF this]
  have s: "s = pre @ m @ rest" and adv: "must_advance \<longrightarrow> pre \<noteq> [] \<or> m \<noteq> []" by simp_all
  have len: "length s = length pre + length m + length rest" by (simp add: s)
  have nonempty: "xs \<noteq> [] \<Longrightarrow> 1 \<le> length xs" for xs :: string by (cases xs) simp_all
  have "2 * length rest + (if m = [] then 0 else 1) < 2 * length s + (if must_advance then 0 else 1)"
  proof (cases "m = []")
    case True
    show ?thesis
    proof (cases "pre = []")
      case True
      with \<open>m = []\<close> adv have "\<not> must_advance" by simp
      then show ?thesis using len True \<open>m = []\<close> by simp
    next
      case False
      then show ?thesis using len nonempty [of pre] \<open>m = []\<close> by simp
    qed
  next
    case False
    then show ?thesis using len nonempty [of m] by simp
  qed
  then show "((pat, repl, m = [], rest), (pat, repl, must_advance, s))
        \<in> measure (\<lambda>(pat, repl, must_advance, s). 2 * length s + (if must_advance then 0 else 1))"
    by simp
qed

declare subn_loop.simps [simp del]

text \<open>
  \<open>re.subn(word_sub_re, repl, string)\<close>. A replacement without a backslash is taken
  literally. A replacement with a backslash is a template that \<open>re\<close> parses (escapes,
  group references, or an error); that parser is not modelled, the result is \<open>None\<close>.
  \<open>clean_input\<close> removes every backslash, so a matched word of \<open>main\<close> has none.
\<close>

definition subn :: "re_item list \<Rightarrow> string \<Rightarrow> string \<Rightarrow> (string \<times> nat) option" where
  "subn pat repl s =
     (if backslash_char \<in> set repl then None else Some (subn_loop pat repl False s))"

text \<open>The replacement \<open>f'<span style="background-color: #FFFF00">{word}</span>'\<close>.\<close>

definition span_open :: string where
  "span_open = ''<span style='' @ [CHR 0x22] @ ''background-color: #FFFF00'' @ [CHR 0x22] @ ''>''"

definition span_close :: string where
  "span_close = ''</span>''"

definition highlight_repl :: "string \<Rightarrow> string" where
  "highlight_repl w = span_open @ w @ span_close"

text \<open>
  A row of the result table. The source writes it as HTML; a row in red text is a row
  with \<open>highlighted = False\<close>.
\<close>

record report_row =
  row_word :: string
  row_restricted :: string
  row_ratio :: real
  highlighted :: bool

datatype table_entry = Section string | Entry report_row

text \<open>The condition of line 261, for matches that give too much noise.\<close>

definition noisy :: "string \<Rightarrow> bool" where
  "noisy w = ((length w < 3 \<and> (\<not> py_isalnum w \<or> py_isdigit w)) \<or> length w = 1)"

text \<open>The body of the loop over the rows, from line 256: the new body and the row written.\<close>

definition highlight_row :: "string \<Rightarrow> match_row \<Rightarrow> (string \<times> report_row) option" where
  "highlight_row updated_body_HTML row =
     (let w = matched_word row;
          red = \<lparr>row_word = w, row_restricted = restricted_word row,
                  row_ratio = similarity row, highlighted = False\<rparr>
      in if noisy w then Some (updated_body_HTML, red)
         else (case subn (word_sub_re w) (highlight_repl w) updated_body_HTML of
                 None \<Rightarrow> None
               | Some (body, subs_made) \<Rightarrow>
                   if subs_made = 0 then Some (body, red)
                   else Some (body, red\<lparr>highlighted := True\<rparr>)))"

text \<open>
  The loop \<open>for idx, row in matches_df.iterrows()\<close> of \<open>main\<close>, with the section rows
  written before the first issuer row and the first ticker row.
\<close>

fun build_table ::
  "nat \<Rightarrow> nat \<Rightarrow> nat \<Rightarrow> match_row list \<Rightarrow> string \<Rightarrow> table_entry list \<Rightarrow>
   (string \<times> table_entry list) option" where
  "build_table n_issuer n_ticker idx [] updated_body_HTML result_table =
     Some (updated_body_HTML, result_table)"
| "build_table n_issuer n_ticker idx (row # rows) updated_body_HTML result_table =
     (let result_table =
            (if idx = 0 \<and> n_issuer > 0 then result_table @ [Section ''Issuer Names'']
             else if idx = n_issuer \<and> n_ticker > 0 then result_table @ [Section ''Tickers'']
             else result_table)
      in case highlight_row updated_body_HTML row of
           None \<Rightarrow> None
         | Some (body, r) \<Rightarrow>
             build_table n_issuer n_ticker (idx + 1) rows body (result_table @ [Entry r]))"

text \<open>
  The highlighter: the loop on \<open>pd.concat([matches_df_issuer, matches_df_ticker])\<close>,
  from the body of the document and the empty table.
\<close>

definition highlight ::
  "string \<Rightarrow> match_row list \<Rightarrow> match_row list \<Rightarrow> (string \<times> table_entry list) option" where
  "highlight body_HTML matches_df_issuer matches_df_ticker =
     build_table (length matches_df_issuer) (length matches_df_ticker) 0
       (matches_df_issuer @ matches_df_ticker) body_HTML []"

section \<open>Properties of the n-gram generator\<close>

lemma is_space_space_char [simp]: "is_space space_char"
  by (simp add: is_space_def space_char_def)

lemma py_strip_leading_space [simp]: "py_strip (space_char # s) = py_strip s"
  by (simp add: py_strip_def)

lemma ngram_window_eq:
  "j \<le> n \<Longrightarrow> i + n \<le> length xs \<Longrightarrow>
   ngram_window xs n i j t = t @ concat (map (\<lambda>w. space_char # w) (take (n - j) (drop (i + j) xs)))"
proof (induction xs n i j t rule: ngram_window.induct)
  case (1 xs n i j t)
  show ?case
  proof (cases "j < n")
    case True
    then have len: "i + j < length xs" using "1.prems" by simp
    have step: "take (n - j) (drop (i + j) xs) = xs ! (i + j) # take (n - (j + 1)) (drop (i + (j + 1)) xs)"
    proof -
      have "drop (i + j) xs = xs ! (i + j) # drop (Suc (i + j)) xs"
        using len by (simp add: Cons_nth_drop_Suc)
      moreover have "n - j = Suc (n - (j + 1))" using True by simp
      ultimately show ?thesis by simp
    qed
    have "ngram_window xs n i j t = ngram_window xs n i (j + 1) (t @ [space_char] @ xs ! (i + j))"
      using True by (subst ngram_window.simps) simp
    also have "\<dots> = (t @ [space_char] @ xs ! (i + j)) @
        concat (map (\<lambda>w. space_char # w) (take (n - (j + 1)) (drop (i + (j + 1)) xs)))"
      using "1.IH" [OF True] True "1.prems" by simp
    finally show ?thesis by (simp add: step)
  next
    case False
    then show ?thesis using "1.prems" by (subst ngram_window.simps) simp
  qed
qed

lemma concat_space_join:
  "ws \<noteq> [] \<Longrightarrow> concat (map (\<lambda>w. space_char # w) ws) = space_char # space_join ws"
  by (induction ws rule: space_join.induct) auto

lemma ngram_window_strip:
  assumes "1 \<le> n" and "i + n \<le> length xs"
  shows "py_strip (ngram_window xs n i 0 []) = py_strip (space_join (take n (drop i xs)))"
proof -
  have "take n (drop i xs) \<noteq> []" using assms by auto
  then show ?thesis
    using ngram_window_eq [of 0 n i xs "[]"] assms by (simp add: concat_space_join)
qed

lemma ngrams_loop_eq:
  "ngrams_loop xs n i res =
     res @ map (\<lambda>k. py_strip (ngram_window xs n k 0 [])) [i ..< length xs + 1 - n]"
proof (induction xs n i res rule: ngrams_loop.induct)
  case (1 xs n i res)
  show ?case
  proof (cases "int i \<le> int (length xs) - int n")
    case True
    then have "i < length xs + 1 - n" by linarith
    then have "[i ..< length xs + 1 - n] = i # [i + 1 ..< length xs + 1 - n]"
      by (simp add: upt_conv_Cons)
    then show ?thesis
      using "1.IH" [OF True] True by (subst ngrams_loop.simps) simp
  next
    case False
    then have "\<not> i < length xs + 1 - n" by linarith
    then show ?thesis using False by (subst ngrams_loop.simps) simp
  qed
qed

lemma get_ngrams_eq:
  "get_ngrams xs n = map (\<lambda>k. py_strip (ngram_window xs n k 0 [])) [0 ..< length xs + 1 - n]"
  by (simp add: get_ngrams_def ngrams_loop_eq)

text \<open>
  C7. For a window length of at least 1, \<open>get_ngrams\<close> returns
  \<open>max(0, len(tokens) - window + 1)\<close> windows; the \<open>i\<close>-th window is the space-joined
  concatenation of the tokens \<open>i\<close> to \<open>i + window - 1\<close>, stripped; a token list shorter
  than the window gives the empty list.
\<close>

theorem get_ngrams_windows:
  assumes "1 \<le> n"
  shows "int (length (get_ngrams xs n)) = max 0 (int (length xs) - int n + 1) \<and>
         (\<forall>i < length (get_ngrams xs n).
            get_ngrams xs n ! i = py_strip (space_join (take n (drop i xs)))) \<and>
         (length xs < n \<longrightarrow> get_ngrams xs n = [])"
proof (intro conjI allI impI)
  show "int (length (get_ngrams xs n)) = max 0 (int (length xs) - int n + 1)"
    by (simp add: get_ngrams_eq)
next
  fix i assume "i < length (get_ngrams xs n)"
  then have i: "i < length xs + 1 - n" by (simp add: get_ngrams_eq)
  then have "i + n \<le> length xs" by simp
  then show "get_ngrams xs n ! i = py_strip (space_join (take n (drop i xs)))"
    using i assms by (simp add: get_ngrams_eq ngram_window_strip)
next
  assume "length xs < n"
  then show "get_ngrams xs n = []" by (simp add: get_ngrams_eq)
qed

theorem get_ngrams_windows_witness:
  "(1::nat) \<le> 2 \<and>
   int (length (get_ngrams [''Apple'', ''Inc'', ''reported'', ''earnings''] 2)) = 3 \<and>
   get_ngrams [''Apple'', ''Inc'', ''reported'', ''earnings''] 2 ! 0 = ''Apple Inc'' \<and>
   get_ngrams [''Apple'', ''Inc'', ''reported'', ''earnings''] 2 ! 2 = ''reported earnings''"
proof -
  let ?toks = "[''Apple'', ''Inc'', ''reported'', ''earnings'']"
  have h: "(1::nat) \<le> 2" by simp
  note w = get_ngrams_windows [OF h, of ?toks]
  have len: "int (length (get_ngrams ?toks 2)) = 3" using w by simp
  then have l3: "length (get_ngrams ?toks 2) = 3" by simp
  have e0: "get_ngrams ?toks 2 ! 0 = py_strip (space_join (take 2 (drop 0 ?toks)))"
    using w l3 by simp
  have e2: "get_ngrams ?toks 2 ! 2 = py_strip (space_join (take 2 (drop 2 ?toks)))"
    using w l3 by simp
  show ?thesis
    using h len e0 e2 by (simp add: py_strip_def is_space_def space_char_def)
qed

section \<open>Properties of the match collector\<close>

lemma matches_for_input_eq:
  "matches_for_input inp rl thr ty ms =
     ms @ map (row_of ty thr inp) (filter (\<lambda>res. thr < score ty inp res thr) rl)"
  by (induction rl arbitrary: ms) (simp_all add: Let_def row_of_def)

lemma matches_loop_eq:
  "matches_loop cl rl thr ty ms =
     ms @ concat (map (\<lambda>inp. map (row_of ty thr (strip_last inp))
                               (filter (\<lambda>res. thr < score ty (strip_last inp) res thr) rl))
                      (filter (\<lambda>inp. inp \<noteq> [] \<and> \<not> py_isspace inp) cl))"
  by (induction cl arbitrary: ms) (simp_all add: matches_for_input_eq)

lemma get_matches_eq:
  "get_matches cl rl thr ty =
     concat (map (\<lambda>inp. map (row_of ty thr (strip_last inp))
                          (filter (\<lambda>res. thr < score ty (strip_last inp) res thr) rl))
                 (filter (\<lambda>inp. inp \<noteq> [] \<and> \<not> py_isspace inp) cl))"
  by (simp add: get_matches_def matches_loop_eq)

lemma get_matches_row:
  assumes "m \<in> set (get_matches cl rl thr ty)"
  obtains inp res where "inp \<in> set cl" "inp \<noteq> []" "\<not> py_isspace inp" "res \<in> set rl"
    "thr < score ty (strip_last inp) res thr" "m = row_of ty thr (strip_last inp) res"
  using assms by (auto simp: get_matches_eq)

lemma get_matches_above: "m \<in> set (get_matches cl rl thr ty) \<Longrightarrow> thr < similarity m"
  by (erule get_matches_row) (simp add: row_of_def)

lemma collect_matches_eq:
  "collect_matches cl ws thr ty n ms =
     ms @ concat (map (\<lambda>k. get_matches (get_ngrams cl k) (filter (\<lambda>elem. word_len elem = k) ws) thr ty)
                      (rev [1 ..< Suc n]))"
proof (induction cl ws thr ty n ms rule: collect_matches.induct)
  case (1 cl ws thr ty n ms)
  show ?case
  proof (cases "n > 0")
    case True
    then obtain k where n: "n = Suc k" by (cases n) auto
    have empty: "get_matches c [] thr ty = []" for c
      by (simp add: get_matches_eq)
    show ?thesis
      using "1.IH" [OF True refl] True
      by (subst collect_matches.simps) (auto simp: n Let_def empty)
  next
    case False
    then show ?thesis by (subst collect_matches.simps) simp
  qed
qed

lemma drop_seen_subset: "set (drop_seen col seen xs) \<subseteq> set xs"
  by (induction xs arbitrary: seen) auto





lemma drop_seen_prefix: "\<exists>zs. drop_seen col seen (xs @ ys) = drop_seen col seen xs @ zs"
  by (induction xs arbitrary: seen) auto

lemma rank_dedup_subset: "set (rank_dedup ms) \<subseteq> set ms"
proof -
  have "set (rank_dedup ms) \<subseteq> set (sort_values ms)"
    unfolding rank_dedup_def drop_duplicates_def
    using drop_seen_subset by (metis subset_trans)
  then show ?thesis by (simp add: sort_values_def)
qed



text \<open>
  C2. Every row of the table \<open>get_matches\<close> builds, and every row of the table
  \<open>fuzzy_search\<close> returns, has a similarity strictly greater than the threshold; a
  candidate and a phrase whose ratio does not exceed the threshold give no row.
\<close>

theorem similarity_exceeds_threshold:
  "(\<forall>m \<in> set (get_matches cl rl thr ty). thr < similarity m) \<and>
   (\<forall>ws' df. fuzzy_search s ws thr ty = (ws', Inr df) \<longrightarrow> (\<forall>m \<in> set df. thr < similarity m)) \<and>
   (score ty (strip_last inp) res thr \<le> thr \<longrightarrow> get_matches [inp] [res] thr ty = [])"
proof (intro conjI allI impI ballI)
  fix m assume "m \<in> set (get_matches cl rl thr ty)"
  then show "thr < similarity m" by (rule get_matches_above)
next
  fix ws' df m
  assume fs: "fuzzy_search s ws thr ty = (ws', Inr df)" and m: "m \<in> set df"
  from fs obtain first where
    df: "df = rank_dedup (collect_matches (py_split (replace_newlines s)) (sort_restricted ws)
               thr ty (word_len first) [])"
    by (auto simp: fuzzy_search_def Let_def split: list.splits)
  from m have "m \<in> set (collect_matches (py_split (replace_newlines s)) (sort_restricted ws)
               thr ty (word_len first) [])"
    unfolding df by (rule subsetD [OF rank_dedup_subset])
  then show "thr < similarity m"
    by (auto simp: collect_matches_eq dest: get_matches_above)
next
  assume "score ty (strip_last inp) res thr \<le> thr"
  then show "get_matches [inp] [res] thr ty = []"
    by (simp add: get_matches_eq)
qed

theorem similarity_exceeds_threshold_witness:
  "get_matches [''AB''] [''AB''] (85/100) Issuer =
     [\<lparr>matched_word = ''AB'', restricted_word = ''AB'', similarity = 1\<rparr>] \<and>
   85/100 < similarity \<lparr>matched_word = ''AB'', restricted_word = ''AB'', similarity = 1\<rparr> \<and>
   score Issuer (strip_last ''AC'') ''AB'' (85/100) \<le> 85/100 \<and>
   get_matches [''AC''] [''AB''] (85/100) Issuer = [] \<and>
   fuzzy_search ''AB AC'' [''AB''] (85/100) Issuer =
     ([''AB''], Inr [\<lparr>matched_word = ''AB'', restricted_word = ''AB'', similarity = 1\<rparr>])"
proof -
  let ?row = "\<lparr>matched_word = ''AB'', restricted_word = ''AB'', similarity = 1\<rparr>"
  note chars = strip_last_def strip_pattern_def is_word_char_def is_alnum_def is_alpha_def
    is_decimal_def is_digit_def is_numeric_def is_space_def py_isspace_def py_strip_def
    remove_non_alnum_def is_ascii_alnum_def
  have g: "get_matches [''AB''] [''AB''] (85/100) Issuer = [?row]"
    by (simp add: get_matches_def chars score_def ratio_def indel_similarity_def Let_def)
  have low: "score Issuer (strip_last ''AC'') ''AB'' (85/100) \<le> 85/100"
    by (simp add: chars score_def ratio_def indel_similarity_def Let_def)
  have f: "fuzzy_search ''AB AC'' [''AB''] (85/100) Issuer = ([''AB''], Inr [?row])"
    by (simp add: fuzzy_search_def sort_restricted_def word_len_def py_split_def
        replace_newlines_def collect_matches.simps get_ngrams_def ngrams_loop.simps
        ngram_window.simps rank_dedup_def drop_duplicates_def sort_values_def newline_char_def
        space_char_def get_matches_def chars score_def ratio_def indel_similarity_def Let_def)
  note w = similarity_exceeds_threshold
    [of "[''AB'']" "[''AB'']" "85/100" Issuer "''AB AC''" "[''AB'']" "''AC''" "''AB''"]
  have above: "85/100 < similarity ?row" using w g by simp
  have none: "get_matches [''AC''] [''AB''] (85/100) Issuer = []" using w low by blast
  show ?thesis using g above low none f by simp
qed

text \<open>
  C10. The \<open>matched_word\<close> of every row is the candidate with at most one trailing
  character removed (one that is no word character, digit, whitespace or dot) and then
  stripped of surrounding whitespace, for both types: for a ticker it is not the
  alphanumeric-reduced text that was scored.
\<close>

theorem matched_word_is_trimmed_candidate:
  assumes "m \<in> set (get_matches cl rl thr ty)"
  shows "\<exists>inp \<in> set cl. inp \<noteq> [] \<and> \<not> py_isspace inp \<and>
           matched_word m = py_strip (if strip_pattern (last inp) then butlast inp else inp) \<and>
           restricted_word m \<in> set rl \<and>
           similarity m = (if ty = Ticker
                           then ratio (remove_non_alnum (strip_last inp)) (restricted_word m) thr
                           else ratio (strip_last inp) (restricted_word m) thr)"
  using assms
  by (elim get_matches_row) (auto simp: row_of_def strip_last_def score_def)

theorem matched_word_is_trimmed_candidate_witness:
  "get_matches [''AA-PL,''] [''AAPL''] (4/5) Ticker =
     [\<lparr>matched_word = ''AA-PL'', restricted_word = ''AAPL'', similarity = 1\<rparr>] \<and>
   (\<exists>inp \<in> set [''AA-PL,'']. inp \<noteq> [] \<and> \<not> py_isspace inp \<and>
      ''AA-PL'' = py_strip (if strip_pattern (last inp) then butlast inp else inp) \<and>
      (1::real) = ratio (remove_non_alnum (strip_last inp)) ''AAPL'' (4/5))"
proof -
  let ?row = "\<lparr>matched_word = ''AA-PL'', restricted_word = ''AAPL'', similarity = 1\<rparr>"
  have g: "get_matches [''AA-PL,''] [''AAPL''] (4/5) Ticker = [?row]"
    by (simp add: get_matches_def strip_last_def strip_pattern_def is_word_char_def
        is_alnum_def is_alpha_def is_decimal_def is_digit_def is_numeric_def is_space_def
        py_isspace_def score_def ratio_def indel_similarity_def remove_non_alnum_def
        is_ascii_alnum_def py_strip_def Let_def)
  then have "?row \<in> set (get_matches [''AA-PL,''] [''AAPL''] (4/5) Ticker)" by simp
  from matched_word_is_trimmed_candidate [OF this]
  obtain inp where inp: "inp \<in> set [''AA-PL,'']" "inp \<noteq> []" "\<not> py_isspace inp"
    "matched_word ?row = py_strip (if strip_pattern (last inp) then butlast inp else inp)"
    "similarity ?row = (if Ticker = Ticker
        then ratio (remove_non_alnum (strip_last inp)) (restricted_word ?row) (4/5)
        else ratio (strip_last inp) (restricted_word ?row) (4/5))"
    by blast
  from inp(4) have mw: "''AA-PL'' = py_strip (if strip_pattern (last inp) then butlast inp else inp)"
    by (simp only: match_row.select_convs)
  from inp(5) have sim: "(1::real) = ratio (remove_non_alnum (strip_last inp)) ''AAPL'' (4/5)"
    by (simp only: match_row.select_convs if_True refl)
  from inp(1,2,3) mw sim g show ?thesis by blast
qed

section \<open>Properties of rank and dedup\<close>



section \<open>Errors and effects of the matching pass\<close>






lemma sort_restricted_Nil [simp]: "(sort_restricted ws = []) = (ws = [])"
proof -
  have "length (sort_restricted ws) = length ws" by (simp add: sort_restricted_def)
  then show ?thesis by (metis length_0_conv)
qed

lemma rank_dedup_Nil [simp]: "rank_dedup [] = []"
  by (simp add: rank_dedup_def drop_duplicates_def sort_values_def)




lemma sorted_neg_key:
  "sorted (map (\<lambda>x. - int (f x)) xs) = sorted_wrt (\<lambda>x y. f y \<le> f x) xs"
  by (simp add: sorted_wrt_map)

text \<open>
  C9, as the code has it. \<open>fuzzy_search\<close> sorts the caller's list in place: when it
  returns, the list holds the same elements, ordered by decreasing word count, the
  elements of equal word count in their former order. The list is unchanged when it was
  in that order before the call.
\<close>

theorem restricted_words_sorted_in_place:
  "mset (fst (fuzzy_search s ws thr ty)) = mset ws \<and>
   sorted_wrt (\<lambda>x y. word_len y \<le> word_len x) (fst (fuzzy_search s ws thr ty)) \<and>
   (\<forall>k. filter (\<lambda>x. word_len x = k) (fst (fuzzy_search s ws thr ty)) =
        filter (\<lambda>x. word_len x = k) ws) \<and>
   (sorted_wrt (\<lambda>x y. word_len y \<le> word_len x) ws \<longrightarrow> fst (fuzzy_search s ws thr ty) = ws)"
proof -
  have f: "fst (fuzzy_search s ws thr ty) = sort_restricted ws"
    by (simp add: fuzzy_search_def Let_def)
  have 1: "mset (sort_restricted ws) = mset ws"
    by (simp add: sort_restricted_def)
  have "sorted (map (\<lambda>x. - int (word_len x)) (sort_restricted ws))"
    by (simp add: sort_restricted_def)
  then have 2: "sorted_wrt (\<lambda>x y. word_len y \<le> word_len x) (sort_restricted ws)"
    by (simp only: sorted_neg_key)
  have 3: "filter (\<lambda>x. word_len x = k) (sort_restricted ws) = filter (\<lambda>x. word_len x = k) ws" for k
    using sort_key_stable [of "\<lambda>x. - int (word_len x)" "- int k" ws]
    by (simp add: sort_restricted_def)
  have 4: "sort_restricted ws = ws" if "sorted_wrt (\<lambda>x y. word_len y \<le> word_len x) ws"
  proof -
    from that have "sorted (map (\<lambda>x. - int (word_len x)) ws)" by (simp only: sorted_neg_key)
    then show ?thesis unfolding sort_restricted_def by (rule sort_key_id_if_sorted)
  qed
  show ?thesis unfolding f using 1 2 3 4 by blast
qed

theorem restricted_words_sorted_in_place_witness:
  "fst (fuzzy_search [] [''a'', ''b c'', ''d''] (1/2) Issuer) = [''b c'', ''a'', ''d''] \<and>
   mset [''b c'', ''a'', ''d''] = mset [''a'', ''b c'', ''d''] \<and>
   sorted_wrt (\<lambda>x y. word_len y \<le> word_len x) [''b c'', ''a'', ''d''] \<and>
   fst (fuzzy_search [] [''b c'', ''a'', ''d''] (1/2) Issuer) = [''b c'', ''a'', ''d'']"
proof -
  have e: "fst (fuzzy_search [] [''a'', ''b c'', ''d''] (1/2) Issuer) = [''b c'', ''a'', ''d'']"
    by (simp add: fuzzy_search_def sort_restricted_def word_len_def py_split_def is_space_def
        Let_def)
  note w1 = restricted_words_sorted_in_place [of "[]" "[''a'', ''b c'', ''d'']" "1/2" Issuer]
  note w2 = restricted_words_sorted_in_place [of "[]" "[''b c'', ''a'', ''d'']" "1/2" Issuer]
  have m: "mset [''b c'', ''a'', ''d''] = mset [''a'', ''b c'', ''d'']"
    using w1 unfolding e by blast
  have s: "sorted_wrt (\<lambda>x y. word_len y \<le> word_len x) [''b c'', ''a'', ''d'']"
    using w1 unfolding e by blast
  have u: "fst (fuzzy_search [] [''b c'', ''a'', ''d''] (1/2) Issuer) = [''b c'', ''a'', ''d'']"
    using w2 s by blast
  show ?thesis using e m s u by blast
qed

text \<open>The list is reordered: a one-word phrase before a two-word phrase is moved behind it.\<close>

theorem restricted_words_reordered:
  "fst (fuzzy_search [] [''a'', ''b c''] (1/2) Issuer) = [''b c'', ''a'']"
  by (simp add: fuzzy_search_def sort_restricted_def word_len_def py_split_def is_space_def
      Let_def)

section \<open>Monotonicity in the threshold\<close>






lemma drop_duplicates_prefix_length:
  "length (drop_duplicates col (takeWhile P xs)) \<le> length (drop_duplicates col xs)"
proof -
  obtain zs where "drop_seen col [] (takeWhile P xs @ dropWhile P xs) =
      drop_seen col [] (takeWhile P xs) @ zs"
    using drop_seen_prefix by blast
  then show ?thesis by (simp add: drop_duplicates_def)
qed




section \<open>Properties of the highlighter\<close>

text \<open>
  C8. A match whose text has length below 3 and is not alphanumeric or is purely
  numeric, or has length 1, gives a row with \<open>highlighted = False\<close> and no substitution:
  the document is unchanged for that match.
\<close>

theorem noisy_match_not_highlighted:
  assumes "(length (matched_word row) < 3 \<and>
              (\<not> py_isalnum (matched_word row) \<or> py_isdigit (matched_word row))) \<or>
           length (matched_word row) = 1"
  shows "highlight_row body row =
           Some (body, \<lparr>row_word = matched_word row, row_restricted = restricted_word row,
                        row_ratio = similarity row, highlighted = False\<rparr>) \<and>
         highlight body [row] [] =
           Some (body, [Section ''Issuer Names'',
                        Entry \<lparr>row_word = matched_word row, row_restricted = restricted_word row,
                               row_ratio = similarity row, highlighted = False\<rparr>])"
proof -
  from assms have "noisy (matched_word row)" by (simp add: noisy_def)
  then have r: "highlight_row body row =
           Some (body, \<lparr>row_word = matched_word row, row_restricted = restricted_word row,
                        row_ratio = similarity row, highlighted = False\<rparr>)"
    by (simp add: highlight_row_def Let_def)
  then show ?thesis by (simp add: highlight_def)
qed

theorem noisy_match_not_highlighted_witness:
  "length ''@!'' < 3 \<and> \<not> py_isalnum ''@!'' \<and>
   highlight_row ''a @! b'' \<lparr>matched_word = ''@!'', restricted_word = ''@1'', similarity = 1/2\<rparr> =
     Some (''a @! b'', \<lparr>row_word = ''@!'', row_restricted = ''@1'', row_ratio = 1/2,
                         highlighted = False\<rparr>) \<and>
   highlight ''a @! b'' [\<lparr>matched_word = ''@!'', restricted_word = ''@1'', similarity = 1/2\<rparr>] [] =
     Some (''a @! b'', [Section ''Issuer Names'',
                        Entry \<lparr>row_word = ''@!'', row_restricted = ''@1'', row_ratio = 1/2,
                               highlighted = False\<rparr>])"
proof -
  let ?row = "\<lparr>matched_word = ''@!'', restricted_word = ''@1'', similarity = 1/2\<rparr>"
  have a: "length ''@!'' < 3" by simp
  have b: "\<not> py_isalnum ''@!''"
    by (simp add: py_isalnum_def is_alnum_def is_alpha_def is_decimal_def is_digit_def
        is_numeric_def)
  have h: "(length (matched_word ?row) < 3 \<and>
              (\<not> py_isalnum (matched_word ?row) \<or> py_isdigit (matched_word ?row))) \<or>
           length (matched_word ?row) = 1"
    using a b by simp
  from noisy_match_not_highlighted [OF h, of "''a @! b''"] a b show ?thesis by simp
qed

subsection \<open>What the pattern matches\<close>

text \<open>
  The texts the pattern of a word matches: a literal matches its character, a space of
  the word matches any run, possibly empty, of line feeds, vertical bars and spaces.
\<close>

inductive matches_word :: "re_item list \<Rightarrow> string \<Rightarrow> bool" where
  empty: "matches_word [] []"
| lit: "matches_word pat t \<Longrightarrow> matches_word (Lit c # pat) (c # t)"
| gap_end: "matches_word pat t \<Longrightarrow> matches_word (Gap # pat) t"
| gap_more: "gap_char x \<Longrightarrow> matches_word (Gap # pat) t \<Longrightarrow> matches_word (Gap # pat) (x # t)"

text \<open>An occurrence of the pattern starts at the head of the text.\<close>

definition occurs_at :: "re_item list \<Rightarrow> string \<Rightarrow> bool" where
  "occurs_at pat s = (\<exists>m rest. s = m @ rest \<and> matches_word pat m)"

text \<open>
  \<open>wrapped_all pat repl s out n\<close>: \<open>out\<close> is \<open>s\<close> with \<open>n\<close> occurrences of the pattern
  replaced by \<open>repl\<close>, each the leftmost one behind the one before it, the text between
  them unchanged, and no occurrence left behind the last.
\<close>

inductive wrapped_all :: "re_item list \<Rightarrow> string \<Rightarrow> string \<Rightarrow> string \<Rightarrow> nat \<Rightarrow> bool"
  for pat :: "re_item list" and repl :: string where
  no_more: "(\<forall>i \<le> length s. \<not> occurs_at pat (drop i s)) \<Longrightarrow> wrapped_all pat repl s s 0"
| wrap: "matches_word pat hit \<Longrightarrow> hit \<noteq> [] \<Longrightarrow>
         (\<forall>i < length pre. \<not> occurs_at pat (drop i (pre @ hit @ rest))) \<Longrightarrow>
         wrapped_all pat repl rest out n \<Longrightarrow>
         wrapped_all pat repl (pre @ hit @ rest) (pre @ repl @ out) (Suc n)"

lemma all_matches_sound: "(m, rest) \<in> set (all_matches pat s) \<Longrightarrow> matches_word pat m"
proof (induction pat s arbitrary: m rule: all_matches.induct)
  case (1 s)
  then show ?case by (simp add: matches_word.empty)
next
  case (2 c pat)
  then show ?case by simp
next
  case (3 c pat x s)
  then show ?case by (auto split: if_splits intro: matches_word.lit)
next
  case (4 pat)
  then show ?case by (auto intro: matches_word.gap_end)
next
  case (5 pat x s)
  from "5.prems" consider
    (more) m' where "gap_char x" "m = x # m'" "(m', rest) \<in> set (all_matches (Gap # pat) s)"
    | (stop) "(m, rest) \<in> set (all_matches pat (x # s))"
    by (auto split: if_splits)
  then show ?case
  proof cases
    case more
    then show ?thesis using "5.IH"(1) by (auto intro: matches_word.gap_more)
  next
    case stop
    then show ?thesis using "5.IH"(2) by (auto intro: matches_word.gap_end)
  qed
qed

lemma all_matches_complete:
  "matches_word pat m \<Longrightarrow> (m, rest) \<in> set (all_matches pat (m @ rest))"
proof (induction pat m rule: matches_word.induct)
  case empty
  then show ?case by simp
next
  case (lit pat t c)
  then show ?case by force
next
  case (gap_end pat t)
  then show ?case by (cases "t @ rest") auto
next
  case (gap_more x pat t)
  then show ?case by force
qed

lemma occurs_at_iff: "occurs_at pat s = (all_matches pat s \<noteq> [])"
proof
  assume "occurs_at pat s"
  then obtain m rest where "s = m @ rest" "matches_word pat m" by (auto simp: occurs_at_def)
  then have "(m, rest) \<in> set (all_matches pat s)" by (simp add: all_matches_complete)
  then show "all_matches pat s \<noteq> []" by auto
next
  assume "all_matches pat s \<noteq> []"
  then obtain m rest where mr: "(m, rest) \<in> set (all_matches pat s)"
    by (cases "all_matches pat s") auto
  then have "s = m @ rest" "matches_word pat m"
    by (auto dest: all_matches_split all_matches_sound)
  then show "occurs_at pat s" by (auto simp: occurs_at_def)
qed

lemma matches_word_nonempty: "matches_word pat m \<Longrightarrow> Lit c \<in> set pat \<Longrightarrow> m \<noteq> []"
  by (induction pat m rule: matches_word.induct) auto

lemma first_match_sound:
  assumes "first_match pat must_advance s = Some (m, rest)"
  shows "matches_word pat m"
proof -
  from assms obtain i where "i < length (all_matches pat s)" "all_matches pat s ! i = (m, rest)"
    by (auto simp: first_match_def find_Some_iff)
  then have "(m, rest) \<in> set (all_matches pat s)" by (metis nth_mem)
  then show ?thesis by (rule all_matches_sound)
qed

lemma first_match_None:
  assumes "first_match pat must_advance s = None"
    and "must_advance \<longrightarrow> (\<exists>c. Lit c \<in> set pat)"
  shows "\<not> occurs_at pat s"
proof
  assume "occurs_at pat s"
  then have "all_matches pat s \<noteq> []" by (simp add: occurs_at_iff)
  then obtain m rest where mr: "(m, rest) \<in> set (all_matches pat s)"
    by (cases "all_matches pat s") auto
  with assms(1) have "must_advance \<and> m = []"
    by (auto simp: first_match_def find_None_iff)
  moreover from mr have "matches_word pat m" by (rule all_matches_sound)
  ultimately show False using assms(2) matches_word_nonempty by blast
qed

lemma search_None:
  "search pat must_advance s = None \<Longrightarrow> must_advance \<longrightarrow> (\<exists>c. Lit c \<in> set pat) \<Longrightarrow>
   i \<le> length s \<Longrightarrow> \<not> occurs_at pat (drop i s)"
proof (induction s arbitrary: must_advance i)
  case Nil
  then have "first_match pat must_advance [] = None" by (auto split: option.splits)
  then show ?case using Nil.prems(2) by (auto dest: first_match_None)
next
  case (Cons c s)
  from Cons.prems(1) have f: "first_match pat must_advance (c # s) = None"
    and r: "search pat False s = None"
    by (auto split: option.splits)
  show ?case
  proof (cases i)
    case 0
    then show ?thesis using first_match_None [OF f Cons.prems(2)] by simp
  next
    case (Suc j)
    then have "j \<le> length s" using Cons.prems(3) by simp
    then show ?thesis using Cons.IH [OF r] Suc by simp
  qed
qed

lemma search_Some_leftmost:
  "search pat must_advance s = Some (pre, m, rest) \<Longrightarrow>
   must_advance \<longrightarrow> (\<exists>c. Lit c \<in> set pat) \<Longrightarrow>
   matches_word pat m \<and> (\<forall>i < length pre. \<not> occurs_at pat (drop i s))"
proof (induction s arbitrary: must_advance pre)
  case Nil
  then show ?case by (auto split: option.splits dest: first_match_sound)
next
  case (Cons c s)
  show ?case
  proof (cases "first_match pat must_advance (c # s)")
    case None
    with Cons.prems(1) obtain pre' where
      r: "search pat False s = Some (pre', m, rest)" and pre: "pre = c # pre'"
      by (auto split: option.splits)
    from Cons.IH [OF r] have ih: "matches_word pat m"
      "\<forall>i < length pre'. \<not> occurs_at pat (drop i s)" by simp_all
    have "\<not> occurs_at pat (drop i (c # s))" if "i < length pre" for i
    proof (cases i)
      case 0
      then show ?thesis using first_match_None [OF None Cons.prems(2)] by simp
    next
      case (Suc j)
      then show ?thesis using ih(2) that pre by simp
    qed
    with ih(1) show ?thesis by simp
  next
    case (Some a)
    with Cons.prems(1) have "a = (m, rest)" "pre = []" by (auto split: prod.splits)
    with Some show ?thesis by (auto dest: first_match_sound)
  qed
qed

lemma subn_loop_wrapped_all:
  "Lit c \<in> set pat \<Longrightarrow> subn_loop pat repl must_advance s = (out, n) \<Longrightarrow>
   wrapped_all pat repl s out n"
proof (induction pat repl must_advance s arbitrary: out n rule: subn_loop.induct)
  case (1 pat repl must_advance s)
  have lit: "must_advance \<longrightarrow> (\<exists>c. Lit c \<in> set pat)" for must_advance
    using "1.prems"(1) by blast
  show ?case
  proof (cases "search pat must_advance s")
    case None
    then have "out = s" "n = 0" using "1.prems"(2) by (simp_all add: subn_loop.simps)
    moreover have "\<forall>i \<le> length s. \<not> occurs_at pat (drop i s)"
      using search_None [OF None lit] by blast
    ultimately show ?thesis by (simp add: wrapped_all.no_more)
  next
    case (Some a)
    obtain pre m rest where a: "a = (pre, m, rest)" by (cases a)
    obtain out' n' where rec: "subn_loop pat repl (m = []) rest = (out', n')"
      by (cases "subn_loop pat repl (m = []) rest")
    have res: "out = pre @ repl @ out'" "n = Suc n'"
      using "1.prems"(2) Some a rec by (simp_all add: subn_loop.simps [of pat repl must_advance s])
    have s: "s = pre @ m @ rest" using search_Some Some a by blast
    have sem: "matches_word pat m" "\<forall>i < length pre. \<not> occurs_at pat (drop i s)"
      using search_Some_leftmost [OF Some [unfolded a] lit] by simp_all
    have ne: "m \<noteq> []" using sem(1) "1.prems"(1) by (rule matches_word_nonempty)
    have ih: "wrapped_all pat repl rest out' n'"
      using "1.IH" [OF Some [unfolded a] refl refl "1.prems"(1) rec] .
    show ?thesis
      unfolding res s using sem(1) ne sem(2) [unfolded s] ih by (rule wrapped_all.wrap)
  qed
qed

lemma highlight_repl_clean:
  "backslash_char \<notin> set w \<Longrightarrow> backslash_char \<notin> set (highlight_repl w)"
  by (simp add: highlight_repl_def span_open_def span_close_def backslash_char_def)

lemma word_sub_re_lit: "c \<in> set w \<Longrightarrow> c \<noteq> space_char \<Longrightarrow> Lit c \<in> set (word_sub_re w)"
  by (induction w) (auto simp: word_sub_re_def)

text \<open>
  C3, as the code has it. For a match that passes the noise filter, with a character
  other than a space and without a backslash, the highlighter replaces every occurrence
  of the pattern it finds from left to right, not only the first: each occurrence (the
  matched word, each of its spaces read as any run, possibly empty, of spaces, line
  feeds and vertical bars) is replaced by the marker around the matched word, the text
  between the occurrences is unchanged, no occurrence is left, and the row is marked
  highlighted when the number of substitutions is not zero.
\<close>

theorem highlighter_wraps_every_occurrence:
  assumes "\<not> noisy (matched_word row)"
    and "backslash_char \<notin> set (matched_word row)"
    and "\<exists>c \<in> set (matched_word row). c \<noteq> space_char"
  shows "\<exists>body' n.
           subn (word_sub_re (matched_word row)) (highlight_repl (matched_word row)) body =
             Some (body', n) \<and>
           highlight_row body row =
             Some (body', \<lparr>row_word = matched_word row, row_restricted = restricted_word row,
                           row_ratio = similarity row, highlighted = (n \<noteq> 0)\<rparr>) \<and>
           wrapped_all (word_sub_re (matched_word row)) (highlight_repl (matched_word row))
             body body' n"
proof -
  let ?w = "matched_word row"
  obtain body' n where l: "subn_loop (word_sub_re ?w) (highlight_repl ?w) False body = (body', n)"
    by (cases "subn_loop (word_sub_re ?w) (highlight_repl ?w) False body")
  have s: "subn (word_sub_re ?w) (highlight_repl ?w) body = Some (body', n)"
    using highlight_repl_clean [OF assms(2)] l by (simp add: subn_def)
  from assms(3) obtain c where "Lit c \<in> set (word_sub_re ?w)"
    using word_sub_re_lit by blast
  then have w: "wrapped_all (word_sub_re ?w) (highlight_repl ?w) body body' n"
    using l by (rule subn_loop_wrapped_all)
  have r: "highlight_row body row =
             Some (body', \<lparr>row_word = ?w, row_restricted = restricted_word row,
                           row_ratio = similarity row, highlighted = (n \<noteq> 0)\<rparr>)"
    using assms(1) s by (simp add: highlight_row_def Let_def)
  from s r w show ?thesis by blast
qed

theorem highlighter_wraps_every_occurrence_witness:
  "\<not> noisy ''ab'' \<and> backslash_char \<notin> set ''ab'' \<and> (\<exists>c \<in> set ''ab''. c \<noteq> space_char) \<and>
   highlight_row ''ab ab'' \<lparr>matched_word = ''ab'', restricted_word = ''ab'', similarity = 1\<rparr> =
     Some (highlight_repl ''ab'' @ '' '' @ highlight_repl ''ab'',
           \<lparr>row_word = ''ab'', row_restricted = ''ab'', row_ratio = 1, highlighted = True\<rparr>) \<and>
   wrapped_all (word_sub_re ''ab'') (highlight_repl ''ab'') ''ab ab''
     (highlight_repl ''ab'' @ '' '' @ highlight_repl ''ab'') 2"
proof -
  let ?row = "\<lparr>matched_word = ''ab'', restricted_word = ''ab'', similarity = 1\<rparr>"
  let ?out = "highlight_repl ''ab'' @ '' '' @ highlight_repl ''ab''"
  have a: "\<not> noisy ''ab''"
    by (simp add: noisy_def py_isalnum_def py_isdigit_def is_alnum_def is_alpha_def
        is_decimal_def is_digit_def is_numeric_def)
  have b: "backslash_char \<notin> set ''ab''" by (simp add: backslash_char_def)
  have c: "\<exists>c \<in> set ''ab''. c \<noteq> space_char" by (simp add: space_char_def)
  have s: "subn (word_sub_re ''ab'') (highlight_repl ''ab'') ''ab ab'' = Some (?out, 2)"
    by (simp add: subn_def subn_loop.simps word_sub_re_def first_match_def highlight_repl_def
        span_open_def span_close_def backslash_char_def space_char_def gap_char_def
        newline_char_def)
  have a': "\<not> noisy (matched_word ?row)" using a by simp
  have b': "backslash_char \<notin> set (matched_word ?row)" using b by simp
  have c': "\<exists>c \<in> set (matched_word ?row). c \<noteq> space_char" using c by simp
  from highlighter_wraps_every_occurrence [OF a' b' c', of "''ab ab''"]
  obtain body' n where
    1: "subn (word_sub_re (matched_word ?row)) (highlight_repl (matched_word ?row)) ''ab ab'' =
          Some (body', n)"
    and 2: "highlight_row ''ab ab'' ?row =
          Some (body', \<lparr>row_word = matched_word ?row, row_restricted = restricted_word ?row,
                        row_ratio = similarity ?row, highlighted = (n \<noteq> 0)\<rparr>)"
    and 3: "wrapped_all (word_sub_re (matched_word ?row)) (highlight_repl (matched_word ?row))
          ''ab ab'' body' n"
    by blast
  from 1 s have eq: "body' = ?out" "n = 2" by simp_all
  from 2 have r: "highlight_row ''ab ab'' ?row =
      Some (?out, \<lparr>row_word = ''ab'', row_restricted = ''ab'', row_ratio = 1, highlighted = True\<rparr>)"
    unfolding eq by simp
  from 3 have w: "wrapped_all (word_sub_re ''ab'') (highlight_repl ''ab'') ''ab ab'' ?out 2"
    unfolding eq by simp
  show ?thesis by (intro conjI a b c r w)
qed

text \<open>
  In the document \<open>ab ab\<close> the match \<open>ab\<close> is substituted twice: both occurrences are
  wrapped, not only the first.
\<close>

theorem second_occurrence_wrapped:
  "subn (word_sub_re ''ab'') (highlight_repl ''ab'') ''ab ab'' =
     Some (highlight_repl ''ab'' @ '' '' @ highlight_repl ''ab'', 2)"
  by (simp add: subn_def subn_loop.simps word_sub_re_def first_match_def highlight_repl_def
      span_open_def span_close_def backslash_char_def space_char_def gap_char_def
      newline_char_def)

subsection \<open>Running the highlighter on its own output\<close>




















end
